theory Spec2Isabelle
  imports Main "HOL-Library.Word"
begin

section \<open>The node cluster manager (package node, type Manager)\<close>

text \<open>
  The Manager owns a map from node names to nodes, a consistent-hash ring over the same
  nodes and a repartition resolver, and routes a key to a node. The model is sequential:
  every operation of the source runs under the Manager's lock, so an operation is a
  function from the state before it to the state after it. A Go panic is the result
  \<open>Inl\<close>; it ends the run.
\<close>

subsection \<open>Data\<close>

type_synonym bytes = "8 word list"

type_synonym Group = string

text \<open>
  A node as the Manager sees it: \<open>Name()\<close>, \<open>Url()\<close>, and \<open>String()\<close>, the key under which
  the hash ring files it (Node embeds consistent.Member, whose only method is String).
  A value of the interface type Node is either such a node or nil.
\<close>

record node =
  Name :: string
  Url :: string
  String :: string

type_synonym Node = "node option"

text \<open>The Go error value returned beside the node: nil or an error with its message.\<close>

type_synonym go_error = "string option"

text \<open>
  \<open>type nodeFactory func(group Group, name, url string, hm HealthMonitor) (Node, error)\<close>.
  The health monitor argument is always the Manager itself and is left out.
\<close>

type_synonym nodeFactory = "Group \<Rightarrow> string \<Rightarrow> string \<Rightarrow> Node \<times> go_error"

datatype panic = NilPointerDereference

text \<open>
  Modelled from the spec: the interface RepartitionResolver and its two implementations
  are declared outside the files at hand. Section 4.2: the no-op variant always reports
  not-found on Get and ignores Put; the stateful variant returns on Get the name last Put
  for that hashed key and on Put records the mapping, overwriting any prior value.
  Eviction is internal to a resolver and is not modelled: an entry stays tracked.
\<close>

datatype RepartitionResolver =
  noopRepartitionResolver
| statefulResolver "64 word \<rightharpoonup> string"

primrec resolverGet :: "RepartitionResolver \<Rightarrow> 64 word \<Rightarrow> string option" where
  "resolverGet noopRepartitionResolver k = None"
| "resolverGet (statefulResolver tbl) k = tbl k"

primrec resolverPut :: "RepartitionResolver \<Rightarrow> 64 word \<Rightarrow> string \<Rightarrow> RepartitionResolver" where
  "resolverPut noopRepartitionResolver k name = noopRepartitionResolver"
| "resolverPut (statefulResolver tbl) k name = statefulResolver (tbl(k \<mapsto> name))"

text \<open>
  What the Manager calls and does not define: \<open>rpc.Url2NodeName\<close>, \<open>xxhash.Sum64\<close>, and
  the choice the hash ring makes among its members for a key. They are parameters.
\<close>

record deps =
  Url2NodeName :: "string \<Rightarrow> string"
  Sum64 :: "bytes \<Rightarrow> 64 word"
  partitionOwner :: "node list \<Rightarrow> bytes \<Rightarrow> nat"

subsection \<open>The hash ring, as the Manager uses it\<close>

text \<open>
  Modelled from the spec: \<open>consistent.Consistent\<close> is a library outside the repository.
  Section 4.1 gives the contract: Add inserts a member under its string key and does
  nothing for a key already present; Remove deletes the member with that key and does
  nothing if it is absent; LocateKey maps a key to exactly one current member, the same
  one each time for the same members, and to none only when there are no members.
  The ring is the list of its members; which member owns a key is the parameter
  \<open>partitionOwner\<close>, read as an index into that list.
  A member is identified by calling its String method, which on a nil interface value
  is a nil dereference.
\<close>

type_synonym Consistent = "node list"

definition ringAdd :: "node \<Rightarrow> Consistent \<Rightarrow> Consistent" where
  "ringAdd n ring = (if String n \<in> set (map String ring) then ring else ring @ [n])"

definition ringAddMember :: "Node \<Rightarrow> Consistent \<Rightarrow> panic + Consistent" where
  "ringAddMember member ring =
     (case member of
        None \<Rightarrow> Inl NilPointerDereference
      | Some n \<Rightarrow> Inr (ringAdd n ring))"

definition ringRemove :: "string \<Rightarrow> Consistent \<Rightarrow> Consistent" where
  "ringRemove name ring = filter (\<lambda>n. String n \<noteq> name) ring"

definition LocateKey :: "deps \<Rightarrow> Consistent \<Rightarrow> bytes \<Rightarrow> Node" where
  "LocateKey d ring key =
     (if ring = [] then None
      else Some (ring ! (partitionOwner d ring key mod length ring)))"

text \<open>\<open>consistent.New(members, cfg)\<close>: a new ring with each member added in turn.\<close>

primrec addAll :: "Node list \<Rightarrow> Consistent \<Rightarrow> panic + Consistent" where
  "addAll [] ring = Inr ring"
| "addAll (member # members) ring =
     (case ringAddMember member ring of
        Inl e \<Rightarrow> Inl e
      | Inr ring' \<Rightarrow> addAll members ring')"

definition consistentNew :: "Node list \<Rightarrow> panic + Consistent" where
  "consistentNew members = addAll members []"

subsection \<open>The Manager\<close>

text \<open>
  The fields of the struct, without the lock. \<open>closed\<close> is not a field of the source: it
  records, in order, the nodes on which Close() has been called.
\<close>

record Manager =
  group :: Group
  nodes :: "string \<rightharpoonup> Node"
  hashRing :: Consistent
  resolver :: RepartitionResolver
  nodeFactory :: nodeFactory
  nodeName2Epochs :: "string \<rightharpoonup> 64 word"
  midEpoch :: "64 word"
  closed :: "node list"

text \<open>\<open>m[name]\<close> on a Go map of interface values: nil when the key is absent.\<close>

definition index :: "(string \<rightharpoonup> Node) \<Rightarrow> string \<Rightarrow> Node" where
  "index ns name = (case ns name of None \<Rightarrow> None | Some v \<Rightarrow> v)"

text \<open>
  The loop of the constructor over the URLs: the node map and the member slice built so
  far are the accumulator. The factory's error is dropped (\<open>node, _ := nf(...)\<close>).
\<close>

primrec newNodes ::
  "deps \<Rightarrow> Group \<Rightarrow> nodeFactory \<Rightarrow> string list \<Rightarrow> (string \<rightharpoonup> Node) \<times> Node list
     \<Rightarrow> (string \<rightharpoonup> Node) \<times> Node list" where
  "newNodes d g nf [] acc = acc"
| "newNodes d g nf (url # urls) acc =
     (let nodeName = Url2NodeName d url in
      if fst acc nodeName = None
      then newNodes d g nf urls
             ((fst acc)(nodeName \<mapsto> fst (nf g nodeName url)),
              snd acc @ [fst (nf g nodeName url)])
      else newNodes d g nf urls acc)"

definition NewManagerWithRepartition ::
  "deps \<Rightarrow> Group \<Rightarrow> nodeFactory \<Rightarrow> string list \<Rightarrow> RepartitionResolver \<Rightarrow> panic + Manager" where
  "NewManagerWithRepartition d g nf urls r =
     (case consistentNew (snd (newNodes d g nf urls (Map.empty, []))) of
        Inl e \<Rightarrow> Inl e
      | Inr ring \<Rightarrow>
          Inr \<lparr>group = g,
               nodes = fst (newNodes d g nf urls (Map.empty, [])),
               hashRing = ring,
               resolver = r,
               nodeFactory = nf,
               nodeName2Epochs = Map.empty,
               midEpoch = 0,
               closed = []\<rparr>)"

definition NewManager :: "deps \<Rightarrow> Group \<Rightarrow> nodeFactory \<Rightarrow> string list \<Rightarrow> panic + Manager" where
  "NewManager d g nf urls = NewManagerWithRepartition d g nf urls noopRepartitionResolver"

definition Add :: "deps \<Rightarrow> string \<Rightarrow> Manager \<Rightarrow> panic + Manager" where
  "Add d url m =
     (let nodeName = Url2NodeName d url in
      if nodes m nodeName = None
      then (let node = fst (nodeFactory m (group m) nodeName url) in
            case ringAddMember node (hashRing m) of
              Inl e \<Rightarrow> Inl e
            | Inr ring \<Rightarrow> Inr (m\<lparr>nodes := (nodes m)(nodeName \<mapsto> node), hashRing := ring\<rparr>))
      else Inr m)"

definition Remove :: "deps \<Rightarrow> string \<Rightarrow> Manager \<Rightarrow> panic + Manager" where
  "Remove d url m =
     (let nodeName = Url2NodeName d url in
      case nodes m nodeName of
        None \<Rightarrow> Inr m
      | Some None \<Rightarrow> Inl NilPointerDereference
      | Some (Some n) \<Rightarrow>
          Inr (m\<lparr>closed := closed m @ [n],
                 nodes := (nodes m)(nodeName := None),
                 nodeName2Epochs := (nodeName2Epochs m)(nodeName := None),
                 hashRing := ringRemove nodeName (hashRing m)\<rparr>))"

definition Get :: "deps \<Rightarrow> string \<Rightarrow> Manager \<Rightarrow> Node" where
  "Get d url m = index (nodes m) (Url2NodeName d url)"

text \<open>
  List ranges over the map in an order Go leaves open; the order of the keys is the
  argument \<open>names\<close>, an enumeration of the map's keys without repetition.
\<close>

definition List :: "Manager \<Rightarrow> string list \<Rightarrow> Node list" where
  "List m names = map (index (nodes m)) names"

definition Distribute :: "deps \<Rightarrow> bytes \<Rightarrow> Manager \<Rightarrow> Node \<times> Manager" where
  "Distribute d key m =
     (let k = Sum64 d key in
      case resolverGet (resolver m) k of
        Some name \<Rightarrow> (index (nodes m) name, m)
      | None \<Rightarrow>
          (case LocateKey d (hashRing m) key of
             None \<Rightarrow> (None, m)
           | Some n \<Rightarrow> (Some n, m\<lparr>resolver := resolverPut (resolver m) k (Name n)\<rparr>)))"

text \<open>Route, without the two route counters it marks in the metrics registry.\<close>

definition Route :: "deps \<Rightarrow> bytes \<Rightarrow> Manager \<Rightarrow> string \<times> Manager" where
  "Route d key m =
     (case Distribute d key m of
        (Some n, m') \<Rightarrow> (Url n, m')
      | (None, m') \<Rightarrow> ([], m'))"

subsection \<open>Sequences of calls\<close>

text \<open>
  A client of the Manager makes calls one after the other; a panic ends the run. The
  node a Distribute call returns is dropped here, its effect on the state is kept.
\<close>

datatype call = CallAdd string | CallRemove string | CallDistribute bytes

primrec step :: "deps \<Rightarrow> call \<Rightarrow> Manager \<Rightarrow> panic + Manager" where
  "step d (CallAdd url) m = Add d url m"
| "step d (CallRemove url) m = Remove d url m"
| "step d (CallDistribute key) m = Inr (snd (Distribute d key m))"

primrec run :: "deps \<Rightarrow> call list \<Rightarrow> Manager \<Rightarrow> panic + Manager" where
  "run d [] m = Inr m"
| "run d (c # cs) m =
     (case step d c m of
        Inl e \<Rightarrow> Inl e
      | Inr m' \<Rightarrow> run d cs m')"

subsection \<open>Properties of states and of factories\<close>

text \<open>
  A factory that names its nodes as it is told: the node it returns answers Name() and
  String() with the name it was given.
\<close>

definition factoryNames :: "nodeFactory \<Rightarrow> bool" where
  "factoryNames nf \<longleftrightarrow>
     (\<forall>g name url n. fst (nf g name url) = Some n \<longrightarrow> Name n = name \<and> String n = name)"

text \<open>Every entry of the node map holds a node, and that node carries the entry's key.\<close>

definition namedByKey :: "Manager \<Rightarrow> bool" where
  "namedByKey m \<longleftrightarrow>
     (\<forall>name v. nodes m name = Some v \<longrightarrow> (\<exists>n. v = Some n \<and> Name n = name \<and> String n = name))"

text \<open>Every member of the ring is the node stored in the node map under the member's key.\<close>

definition ringInNodeSet :: "Manager \<Rightarrow> bool" where
  "ringInNodeSet m \<longleftrightarrow> (\<forall>n \<in> set (hashRing m). nodes m (String n) = Some (Some n))"

definition wellFormed :: "Manager \<Rightarrow> bool" where
  "wellFormed m \<longleftrightarrow> namedByKey m \<and> ringInNodeSet m"

text \<open>The invariant of the data model: every name of the node map has a member in the ring.\<close>

definition nodeSetInRing :: "Manager \<Rightarrow> bool" where
  "nodeSetInRing m \<longleftrightarrow> (\<forall>name \<in> dom (nodes m). \<exists>n \<in> set (hashRing m). String n = name)"

text \<open>A value of List() that is a node with the given name.\<close>

definition hasName :: "string \<Rightarrow> Node \<Rightarrow> bool" where
  "hasName name v = (case v of None \<Rightarrow> False | Some n \<Rightarrow> Name n = name)"

subsection \<open>Concrete instances\<close>

text \<open>
  Instances of the parameters on which the operations can be run: the node name is the
  URL itself, the hash of a key is its length, and the ring gives every key to the member
  added last.
\<close>

definition exampleDeps :: deps where
  "exampleDeps =
     \<lparr>Url2NodeName = (\<lambda>url. url),
      Sum64 = (\<lambda>key. of_nat (length key)),
      partitionOwner = (\<lambda>ring key. length ring - 1)\<rparr>"

definition exampleFactory :: nodeFactory where
  "exampleFactory g name url = (Some \<lparr>Name = name, Url = url, String = name\<rparr>, None)"

text \<open>A factory that builds the node and reports an error with it.\<close>

definition failingFactory :: nodeFactory where
  "failingFactory g name url =
     (Some \<lparr>Name = name, Url = url, String = name\<rparr>, Some ''dial failed'')"

definition nodeA :: node where
  "nodeA = \<lparr>Name = ''a'', Url = ''a'', String = ''a''\<rparr>"

definition nodeB :: node where
  "nodeB = \<lparr>Name = ''b'', Url = ''b'', String = ''b''\<rparr>"

text \<open>A Manager over the single node a, and one over a and b, for a given resolver.\<close>

definition managerA :: "nodeFactory \<Rightarrow> RepartitionResolver \<Rightarrow> Manager" where
  "managerA nf r =
     \<lparr>group = ''g'', nodes = [''a'' \<mapsto> Some nodeA], hashRing = [nodeA], resolver = r,
      nodeFactory = nf, nodeName2Epochs = Map.empty, midEpoch = 0, closed = []\<rparr>"

definition managerAB :: "nodeFactory \<Rightarrow> RepartitionResolver \<Rightarrow> Manager" where
  "managerAB nf r =
     \<lparr>group = ''g'', nodes = [''a'' \<mapsto> Some nodeA, ''b'' \<mapsto> Some nodeB],
      hashRing = [nodeA, nodeB], resolver = r,
      nodeFactory = nf, nodeName2Epochs = Map.empty, midEpoch = 0, closed = []\<rparr>"

definition managerEmpty :: "nodeFactory \<Rightarrow> RepartitionResolver \<Rightarrow> Manager" where
  "managerEmpty nf r =
     \<lparr>group = ''g'', nodes = Map.empty, hashRing = [], resolver = r,
      nodeFactory = nf, nodeName2Epochs = Map.empty, midEpoch = 0, closed = []\<rparr>"

text \<open>
  States of a run over a and b with a stateful resolver: the key of hash 1 pinned to b,
  and the state after b has then been removed; the key of hash 1 pinned to a, and the
  state after b has then been added and a key of hash 2 routed.
\<close>

definition pinnedToB :: Manager where
  "pinnedToB = managerAB exampleFactory (statefulResolver [1 \<mapsto> ''b''])"

definition afterRemoveB :: Manager where
  "afterRemoveB =
     \<lparr>group = ''g'', nodes = [''a'' \<mapsto> Some nodeA], hashRing = [nodeA],
      resolver = statefulResolver [1 \<mapsto> ''b''],
      nodeFactory = exampleFactory, nodeName2Epochs = Map.empty, midEpoch = 0,
      closed = [nodeB]\<rparr>"

definition pinnedToA :: Manager where
  "pinnedToA = managerA exampleFactory (statefulResolver [1 \<mapsto> ''a''])"

definition pinnedBoth :: Manager where
  "pinnedBoth = managerAB exampleFactory (statefulResolver [1 \<mapsto> ''a'', 2 \<mapsto> ''b''])"

section \<open>Facts about the operations\<close>

subsection \<open>Distribute and the ring\<close>

lemma Distribute_cases:
  "Distribute d key m =
     (case resolverGet (resolver m) (Sum64 d key) of
        Some name \<Rightarrow> (index (nodes m) name, m)
      | None \<Rightarrow>
          (case LocateKey d (hashRing m) key of
             None \<Rightarrow> (None, m)
           | Some n \<Rightarrow> (Some n, m\<lparr>resolver := resolverPut (resolver m) (Sum64 d key) (Name n)\<rparr>)))"
  by (simp add: Distribute_def Let_def)

lemma LocateKey_member: "LocateKey d ring key = Some n \<Longrightarrow> n \<in> set ring"
  by (auto simp: LocateKey_def split: if_splits)

lemma LocateKey_empty: "LocateKey d [] key = None"
  by (simp add: LocateKey_def)

lemma LocateKey_nonempty: "ring \<noteq> [] \<Longrightarrow> \<exists>n. LocateKey d ring key = Some n"
  by (simp add: LocateKey_def)

lemma Distribute_keeps:
  "nodes (snd (Distribute d key m)) = nodes m \<and>
   hashRing (snd (Distribute d key m)) = hashRing m \<and>
   nodeFactory (snd (Distribute d key m)) = nodeFactory m"
  by (simp add: Distribute_cases split: option.splits)

lemma ringAdd_keys: "String ` set (ringAdd n ring) = insert (String n) (String ` set ring)"
  by (auto simp: ringAdd_def)

lemma ringAdd_members: "set (ringAdd n ring) \<subseteq> insert n (set ring)"
  by (auto simp: ringAdd_def)

lemma ringAdd_keeps: "set ring \<subseteq> set (ringAdd n ring)"
  by (auto simp: ringAdd_def)

subsection \<open>Add and Remove, case by case\<close>

lemma Add_absent:
  assumes "nodes m (Url2NodeName d url) = None" and "Add d url m = Inr m'"
  shows "\<exists>n. fst (nodeFactory m (group m) (Url2NodeName d url) url) = Some n \<and>
             m' = m\<lparr>nodes := (nodes m)(Url2NodeName d url \<mapsto> Some n),
                     hashRing := ringAdd n (hashRing m)\<rparr>"
  using assms by (auto simp: Add_def Let_def ringAddMember_def split: option.splits)

lemma Add_present: "nodes m (Url2NodeName d url) = Some v \<Longrightarrow> Add d url m = Inr m"
  by (simp add: Add_def Let_def)

lemma Add_stores: "Add d url m = Inr m' \<Longrightarrow> \<exists>v. nodes m' (Url2NodeName d url) = Some v"
  by (auto simp: Add_def Let_def split: if_splits sum.splits)

lemma Add_nil:
  "nodes m (Url2NodeName d url) = None \<Longrightarrow>
   fst (nodeFactory m (group m) (Url2NodeName d url) url) = None \<Longrightarrow>
   Add d url m = Inl NilPointerDereference"
  by (simp add: Add_def Let_def ringAddMember_def)

lemma Remove_nil:
  "nodes m (Url2NodeName d url) = Some None \<Longrightarrow> Remove d url m = Inl NilPointerDereference"
  by (simp add: Remove_def Let_def)

lemma Remove_absent:"nodes m (Url2NodeName d url) = None \<Longrightarrow> Remove d url m = Inr m"
  by (simp add: Remove_def Let_def)

lemma Remove_present:
  assumes "nodes m (Url2NodeName d url) = Some v" and "Remove d url m = Inr m'"
  shows "\<exists>n. v = Some n \<and>
             m' = m\<lparr>closed := closed m @ [n],
                     nodes := (nodes m)(Url2NodeName d url := None),
                     nodeName2Epochs := (nodeName2Epochs m)(Url2NodeName d url := None),
                     hashRing := ringRemove (Url2NodeName d url) (hashRing m)\<rparr>"
  using assms by (auto simp: Remove_def Let_def split: option.splits)

subsection \<open>The constructor\<close>

lemma addAll_keys:
  "addAll members ring = Inr ring' \<Longrightarrow>
     None \<notin> set members \<and>
     String ` set ring' = String ` set ring \<union> String ` {n. Some n \<in> set members}"
proof (induction members arbitrary: ring)
  case Nil
  then show ?case by simp
next
  case (Cons member members)
  then obtain n where n: "member = Some n"
    by (cases member) (auto simp: ringAddMember_def)
  with Cons.prems have "addAll members (ringAdd n ring) = Inr ring'"
    by (simp add: ringAddMember_def)
  from Cons.IH[OF this] show ?case using n by (auto simp: ringAdd_keys)
qed

lemma addAll_members:
  "addAll members ring = Inr ring' \<Longrightarrow> set ring' \<subseteq> set ring \<union> {n. Some n \<in> set members}"
proof (induction members arbitrary: ring)
  case Nil
  then show ?case by simp
next
  case (Cons member members)
  then obtain n where n: "member = Some n"
    by (cases member) (auto simp: ringAddMember_def)
  with Cons.prems have "addAll members (ringAdd n ring) = Inr ring'"
    by (simp add: ringAddMember_def)
  from Cons.IH[OF this] show ?case using n ringAdd_members[of n ring] by auto
qed

lemma newNodes_inv:
  assumes "\<forall>name v. fst acc name = Some v \<longrightarrow> v \<in> set (snd acc) \<and> P name v"
    and "\<forall>v \<in> set (snd acc). \<exists>name. fst acc name = Some v"
    and "\<forall>url \<in> set urls. P (Url2NodeName d url) (fst (nf g (Url2NodeName d url) url))"
  shows "(\<forall>name v. fst (newNodes d g nf urls acc) name = Some v \<longrightarrow>
            v \<in> set (snd (newNodes d g nf urls acc)) \<and> P name v) \<and>
         (\<forall>v \<in> set (snd (newNodes d g nf urls acc)). \<exists>name. fst (newNodes d g nf urls acc) name = Some v)"
  using assms
proof (induction urls arbitrary: acc)
  case Nil
  then show ?case by simp
next
  case (Cons url urls)
  have c: "\<forall>url \<in> set urls. P (Url2NodeName d url) (fst (nf g (Url2NodeName d url) url))"
    using Cons.prems(3) by simp
  show ?case
  proof (cases "fst acc (Url2NodeName d url)")
    case None
    let ?v = "fst (nf g (Url2NodeName d url) url)"
    let ?acc = "((fst acc)(Url2NodeName d url \<mapsto> ?v), snd acc @ [?v])"
    have a: "\<forall>name v. fst ?acc name = Some v \<longrightarrow> v \<in> set (snd ?acc) \<and> P name v"
      using Cons.prems(1,3) by auto
    have b: "\<forall>v \<in> set (snd ?acc). \<exists>name. fst ?acc name = Some v"
    proof
      fix v assume "v \<in> set (snd ?acc)"
      then consider "v = ?v" | "v \<in> set (snd acc)" by auto
      then show "\<exists>name. fst ?acc name = Some v"
      proof cases
        case 1
        then show ?thesis by auto
      next
        case 2
        then obtain name where "fst acc name = Some v" using Cons.prems(2) by blast
        then have "fst ?acc name = Some v" using None by auto
        then show ?thesis by blast
      qed
    qed
    have "newNodes d g nf (url # urls) acc = newNodes d g nf urls ?acc"
      using None by (simp add: Let_def)
    with Cons.IH[OF a b c] show ?thesis by simp
  next
    case (Some v)
    then have "newNodes d g nf (url # urls) acc = newNodes d g nf urls acc"
      by (simp add: Let_def)
    with Cons.IH[OF Cons.prems(1,2) c] show ?thesis by simp
  qed
qed

lemma newNodes_dom:
  "dom (fst (newNodes d g nf urls acc)) = dom (fst acc) \<union> Url2NodeName d ` set urls"
  by (induction urls arbitrary: acc) (auto simp: Let_def)

lemma New_fields:
  assumes "NewManagerWithRepartition d g nf urls r = Inr m"
  shows "nodes m = fst (newNodes d g nf urls (Map.empty, [])) \<and>
         addAll (snd (newNodes d g nf urls (Map.empty, []))) [] = Inr (hashRing m) \<and>
         resolver m = r \<and> nodeFactory m = nf \<and> group m = g"
  using assms by (auto simp: NewManagerWithRepartition_def consistentNew_def split: sum.splits)

lemma New_stored:
  assumes "NewManagerWithRepartition d g nf urls r = Inr m"
    and "\<forall>url \<in> set urls. P (Url2NodeName d url) (fst (nf g (Url2NodeName d url) url))"
  shows "(\<forall>name v. nodes m name = Some v \<longrightarrow> (\<exists>n. v = Some n \<and> String n \<in> String ` set (hashRing m)) \<and> P name v) \<and>
         (\<forall>n \<in> set (hashRing m). \<exists>name. nodes m name = Some (Some n))"
proof -
  let ?res = "newNodes d g nf urls (Map.empty, [])"
  note f = New_fields[OF assms(1)]
  have inv: "(\<forall>name v. fst ?res name = Some v \<longrightarrow> v \<in> set (snd ?res) \<and> P name v) \<and>
         (\<forall>v \<in> set (snd ?res). \<exists>name. fst ?res name = Some v)"
    by (rule newNodes_inv) (use assms(2) in auto)
  from f have add: "addAll (snd ?res) [] = Inr (hashRing m)" by simp
  note keys = addAll_keys[OF add] and mem = addAll_members[OF add]
  have 1: "\<forall>name v. nodes m name = Some v \<longrightarrow> (\<exists>n. v = Some n \<and> String n \<in> String ` set (hashRing m)) \<and> P name v"
  proof (intro allI impI)
    fix name v assume "nodes m name = Some v"
    then have v: "v \<in> set (snd ?res)" and P: "P name v" using inv f by auto
    from keys have "None \<notin> set (snd ?res)" by simp
    with v have "v \<noteq> None" by metis
    then obtain n where n: "v = Some n" by blast
    with v have "n \<in> {n. Some n \<in> set (snd ?res)}" by simp
    then have "String n \<in> String ` set (hashRing m)" using keys by blast
    with n have "v = Some n \<and> String n \<in> String ` set (hashRing m)" by simp
    with P show "(\<exists>n. v = Some n \<and> String n \<in> String ` set (hashRing m)) \<and> P name v" by blast
  qed
  have 2: "\<forall>n \<in> set (hashRing m). \<exists>name. nodes m name = Some (Some n)"
  proof
    fix n assume "n \<in> set (hashRing m)"
    then have "Some n \<in> set (snd ?res)" using mem by auto
    then show "\<exists>name. nodes m name = Some (Some n)" using inv f by auto
  qed
  from 1 2 show ?thesis by blast
qed

lemma factoryNames_P:
  "factoryNames nf \<Longrightarrow>
   \<forall>url \<in> set urls. (\<lambda>name v. \<forall>n. v = Some n \<longrightarrow> Name n = name \<and> String n = name)
      (Url2NodeName d url) (fst (nf g (Url2NodeName d url) url))"
  by (auto simp: factoryNames_def)

subsection \<open>Well-formed states\<close>

text \<open>
  With a factory that names its nodes as told, the constructor yields a well-formed state
  and every completed call keeps it well formed: the states a client can reach are well
  formed.
\<close>

lemma namedByKey_Add:
  assumes "factoryNames (nodeFactory m)" and "namedByKey m" and "Add d url m = Inr m'"
  shows "namedByKey m'"
proof (cases "nodes m (Url2NodeName d url)")
  case None
  from Add_absent[OF None assms(3)] obtain n where
    n: "fst (nodeFactory m (group m) (Url2NodeName d url) url) = Some n"
    and m': "m' = m\<lparr>nodes := (nodes m)(Url2NodeName d url \<mapsto> Some n),
                     hashRing := ringAdd n (hashRing m)\<rparr>" by blast
  from n assms(1) have "String n = Url2NodeName d url" "Name n = Url2NodeName d url"
    by (auto simp: factoryNames_def)
  then show ?thesis using assms(2) m' by (auto simp: namedByKey_def)
next
  case (Some v)
  then have "m' = m" using assms(3) by (simp add: Add_present)
  then show ?thesis using assms(2) by simp
qed

lemma wellFormed_Add:
  assumes "factoryNames (nodeFactory m)" and "wellFormed m" and "Add d url m = Inr m'"
  shows "wellFormed m'"
proof (cases "nodes m (Url2NodeName d url)")
  case None
  from Add_absent[OF None assms(3)] obtain n where
    n: "fst (nodeFactory m (group m) (Url2NodeName d url) url) = Some n"
    and m': "m' = m\<lparr>nodes := (nodes m)(Url2NodeName d url \<mapsto> Some n),
                     hashRing := ringAdd n (hashRing m)\<rparr>" by blast
  from n assms(1) have key: "String n = Url2NodeName d url" "Name n = Url2NodeName d url"
    by (auto simp: factoryNames_def)
  have "namedByKey m'"
    using assms(2) key m' by (auto simp: wellFormed_def namedByKey_def)
  moreover have "ringInNodeSet m'"
    unfolding ringInNodeSet_def
  proof
    fix x assume "x \<in> set (hashRing m')"
    then have "x = n \<or> x \<in> set (hashRing m)"
      using m' ringAdd_members[of n "hashRing m"] by auto
    then show "nodes m' (String x) = Some (Some x)"
    proof
      assume "x = n" then show ?thesis using key m' by simp
    next
      assume "x \<in> set (hashRing m)"
      then have "nodes m (String x) = Some (Some x)"
        using assms(2) by (simp add: wellFormed_def ringInNodeSet_def)
      then show ?thesis using None m' by auto
    qed
  qed
  ultimately show ?thesis by (simp add: wellFormed_def)
next
  case (Some v)
  then have "m' = m" using assms(3) by (simp add: Add_present)
  then show ?thesis using assms(2) by simp
qed

lemma wellFormed_Remove:
  assumes "wellFormed m" and "Remove d url m = Inr m'"
  shows "wellFormed m'"
proof (cases "nodes m (Url2NodeName d url)")
  case None
  then have "m' = m" using assms(2) by (simp add: Remove_absent)
  then show ?thesis using assms(1) by simp
next
  case (Some v)
  from Remove_present[OF Some assms(2)] have
    ns: "nodes m' = (nodes m)(Url2NodeName d url := None)"
    and ring: "hashRing m' = ringRemove (Url2NodeName d url) (hashRing m)" by auto
  have "namedByKey m'"
    using assms(1) ns by (auto simp: wellFormed_def namedByKey_def split: if_splits)
  moreover have "ringInNodeSet m'"
    using assms(1) ns ring by (auto simp: wellFormed_def ringInNodeSet_def ringRemove_def)
  ultimately show ?thesis by (simp add: wellFormed_def)
qed

lemma wellFormed_Distribute: "wellFormed m \<Longrightarrow> wellFormed (snd (Distribute d key m))"
  by (simp add: wellFormed_def namedByKey_def ringInNodeSet_def Distribute_keeps)

lemma wellFormed_New:
  assumes "factoryNames nf" and "NewManagerWithRepartition d g nf urls r = Inr m"
  shows "wellFormed m"
proof -
  note st = New_stored[OF assms(2) factoryNames_P[OF assms(1)]]
  have "namedByKey m" using st unfolding namedByKey_def by blast
  moreover have "ringInNodeSet m" unfolding ringInNodeSet_def
  proof
    fix n assume "n \<in> set (hashRing m)"
    then obtain name where nm: "nodes m name = Some (Some n)" using st by blast
    then have "String n = name" using st by blast
    with nm show "nodes m (String n) = Some (Some n)" by simp
  qed
  ultimately show ?thesis by (simp add: wellFormed_def)
qed

lemma step_nodeFactory: "step d c m = Inr m' \<Longrightarrow> nodeFactory m' = nodeFactory m"
  by (cases c) (auto simp: Add_def Remove_def Let_def Distribute_keeps split: if_splits option.splits sum.splits)

lemma step_wellFormed:
  "factoryNames (nodeFactory m) \<Longrightarrow> wellFormed m \<Longrightarrow> step d c m = Inr m' \<Longrightarrow> wellFormed m'"
  by (cases c) (auto intro: wellFormed_Add wellFormed_Remove wellFormed_Distribute)

lemma run_wellFormed:
  "factoryNames (nodeFactory m) \<Longrightarrow> wellFormed m \<Longrightarrow> run d cs m = Inr m' \<Longrightarrow> wellFormed m'"
proof (induction cs arbitrary: m)
  case Nil
  then show ?case by simp
next
  case (Cons c cs)
  from Cons.prems(3) obtain m1 where s: "step d c m = Inr m1" and r: "run d cs m1 = Inr m'"
    by (auto split: sum.splits)
  from step_nodeFactory[OF s] Cons.prems(1) have "factoryNames (nodeFactory m1)" by simp
  moreover from Cons.prems(1,2) s have "wellFormed m1" by (rule step_wellFormed)
  ultimately show ?case using r by (rule Cons.IH)
qed

lemma reachable_wellFormed:
  assumes "factoryNames nf"
    and "NewManagerWithRepartition d g nf urls r = Inr m0"
    and "run d cs m0 = Inr m"
  shows "wellFormed m"
proof -
  have "nodeFactory m0 = nf" using New_fields[OF assms(2)] by simp
  with assms(1) have "factoryNames (nodeFactory m0)" by simp
  moreover have "wellFormed m0" using assms(1,2) by (rule wellFormed_New)
  ultimately show ?thesis using assms(3) by (rule run_wellFormed)
qed

subsection \<open>The node set is covered by the ring\<close>

lemma nodeSetInRing_Add:
  assumes "factoryNames (nodeFactory m)" and "nodeSetInRing m" and "Add d url m = Inr m'"
  shows "nodeSetInRing m'"
proof (cases "nodes m (Url2NodeName d url)")
  case None
  from Add_absent[OF None assms(3)] obtain n where
    n: "fst (nodeFactory m (group m) (Url2NodeName d url) url) = Some n"
    and m': "m' = m\<lparr>nodes := (nodes m)(Url2NodeName d url \<mapsto> Some n),
                     hashRing := ringAdd n (hashRing m)\<rparr>" by blast
  from n assms(1) have key: "String n = Url2NodeName d url"
    by (auto simp: factoryNames_def)
  show ?thesis
    unfolding nodeSetInRing_def
  proof
    fix name assume "name \<in> dom (nodes m')"
    then have "name = Url2NodeName d url \<or> name \<in> dom (nodes m)"
      using m' by (auto split: if_splits)
    then have "name \<in> insert (String n) (String ` set (hashRing m))"
      using assms(2) key by (fastforce simp: nodeSetInRing_def dom_def)
    then have "name \<in> String ` set (hashRing m')"
      using m' by (simp add: ringAdd_keys)
    then show "\<exists>x\<in>set (hashRing m'). String x = name" by auto
  qed
next
  case (Some v)
  then have "m' = m" using assms(3) by (simp add: Add_present)
  then show ?thesis using assms(2) by simp
qed

lemma nodeSetInRing_Remove:
  assumes "nodeSetInRing m" and "Remove d url m = Inr m'"
  shows "nodeSetInRing m'"
proof (cases "nodes m (Url2NodeName d url)")
  case None
  then have "m' = m" using assms(2) by (simp add: Remove_absent)
  then show ?thesis using assms(1) by simp
next
  case (Some v)
  from Remove_present[OF Some assms(2)] have
    ns: "nodes m' = (nodes m)(Url2NodeName d url := None)"
    and ring: "hashRing m' = ringRemove (Url2NodeName d url) (hashRing m)" by auto
  show ?thesis
    unfolding nodeSetInRing_def
  proof
    fix name assume "name \<in> dom (nodes m')"
    then have "name \<noteq> Url2NodeName d url" and "name \<in> dom (nodes m)"
      using ns by (auto split: if_splits)
    then show "\<exists>x\<in>set (hashRing m'). String x = name"
      using assms(1) ring by (fastforce simp: nodeSetInRing_def ringRemove_def dom_def)
  qed
qed

lemma nodeSetInRing_Distribute: "nodeSetInRing m \<Longrightarrow> nodeSetInRing (snd (Distribute d key m))"
  by (simp add: nodeSetInRing_def Distribute_keeps)

lemma nodeSetInRing_New:
  assumes "factoryNames nf" and "NewManagerWithRepartition d g nf urls r = Inr m"
  shows "nodeSetInRing m"
proof -
  note st = New_stored[OF assms(2) factoryNames_P[OF assms(1)]]
  show ?thesis unfolding nodeSetInRing_def
  proof
    fix name assume "name \<in> dom (nodes m)"
    then obtain v where v: "nodes m name = Some v" by auto
    with st obtain n where "v = Some n" "String n \<in> String ` set (hashRing m)" "String n = name"
      by blast
    then show "\<exists>x\<in>set (hashRing m). String x = name" by auto
  qed
qed

lemma step_nodeSetInRing:
  "factoryNames (nodeFactory m) \<Longrightarrow> nodeSetInRing m \<Longrightarrow> step d c m = Inr m' \<Longrightarrow> nodeSetInRing m'"
  by (cases c) (auto intro: nodeSetInRing_Add nodeSetInRing_Remove nodeSetInRing_Distribute)

lemma run_nodeSetInRing:
  "factoryNames (nodeFactory m) \<Longrightarrow> nodeSetInRing m \<Longrightarrow> run d cs m = Inr m' \<Longrightarrow> nodeSetInRing m'"
proof (induction cs arbitrary: m)
  case Nil
  then show ?case by simp
next
  case (Cons c cs)
  from Cons.prems(3) obtain m1 where s: "step d c m = Inr m1" and r: "run d cs m1 = Inr m'"
    by (auto split: sum.splits)
  from step_nodeFactory[OF s] Cons.prems(1) have "factoryNames (nodeFactory m1)" by simp
  moreover from Cons.prems(1,2) s have "nodeSetInRing m1" by (rule step_nodeSetInRing)
  ultimately show ?case using r by (rule Cons.IH)
qed

subsection \<open>Concrete runs\<close>

lemmas example_defs =
  exampleDeps_def exampleFactory_def failingFactory_def managerA_def managerAB_def managerEmpty_def
  nodeA_def nodeB_def pinnedToB_def afterRemoveB_def

lemmas op_defs =
  Add_def Remove_def Distribute_def Route_def Let_def ringAddMember_def ringAdd_def ringRemove_def
  LocateKey_def index_def NewManagerWithRepartition_def NewManager_def consistentNew_def

lemma factoryNames_example: "factoryNames exampleFactory"
  by (simp add: factoryNames_def exampleFactory_def)

lemma wellFormed_managerAB: "wellFormed (managerAB nf r)"
  by (simp add: wellFormed_def namedByKey_def ringInNodeSet_def managerAB_def nodeA_def nodeB_def)

lemma wellFormed_managerA: "wellFormed (managerA nf r)"
  by (simp add: wellFormed_def namedByKey_def ringInNodeSet_def managerA_def nodeA_def)

lemma New_AB: "NewManagerWithRepartition exampleDeps ''g'' exampleFactory [''a'', ''b''] r = Inr (managerAB exampleFactory r)"
  by (simp add: op_defs example_defs)

lemma New_A: "NewManagerWithRepartition exampleDeps ''g'' exampleFactory [''a''] r = Inr (managerA exampleFactory r)"
  by (simp add: op_defs example_defs)

lemma Add_B: "Add exampleDeps ''b'' (managerA exampleFactory r) = Inr (managerAB exampleFactory r)"
  by (simp add: op_defs example_defs)

lemma New_AB_failing:
  "NewManagerWithRepartition exampleDeps ''g'' failingFactory [''a'', ''b''] r = Inr (managerAB failingFactory r)"
  by (simp add: op_defs example_defs)

lemma Add_B_failing: "Add exampleDeps ''b'' (managerA failingFactory r) = Inr (managerAB failingFactory r)"
  by (simp add: op_defs example_defs)

lemma Distribute_noop_A:
  "Distribute exampleDeps key (managerA nf noopRepartitionResolver) = (Some nodeA, managerA nf noopRepartitionResolver)"
  by (simp add: op_defs example_defs)

lemma Distribute_noop_AB:
  "Distribute exampleDeps key (managerAB nf noopRepartitionResolver) = (Some nodeB, managerAB nf noopRepartitionResolver)"
  by (simp add: op_defs example_defs)

lemma Distribute_AB_empty:
  "Distribute exampleDeps [1] (managerAB exampleFactory (statefulResolver Map.empty)) = (Some nodeB, pinnedToB)"
  by (simp add: op_defs example_defs)

lemma Distribute_A_empty:
  "Distribute exampleDeps [1] (managerA exampleFactory (statefulResolver Map.empty)) = (Some nodeA, pinnedToA)"
  by (simp add: op_defs example_defs pinnedToA_def)

lemma Remove_B: "Remove exampleDeps ''b'' pinnedToB = Inr afterRemoveB"
  by (simp add: op_defs example_defs)

lemma run_pinnedToA:
  "run exampleDeps [CallAdd ''b'', CallDistribute [1, 2]] pinnedToA = Inr pinnedBoth"
  by (simp add: op_defs example_defs pinnedToA_def pinnedBoth_def)

lemma run_to_afterRemoveB:
  "run exampleDeps [CallDistribute [1], CallRemove ''b'']
     (managerAB exampleFactory (statefulResolver Map.empty)) = Inr afterRemoveB"
  by (simp add: Distribute_AB_empty Remove_B)

section \<open>The claims\<close>

subsection \<open>C1: a resolver entry that names a removed node\<close>

text \<open>
  Claim C1 says that Distribute, finding in the resolver the name of a node that has been
  removed, notices the miss, looks the key up in the ring, stores the new choice in the
  resolver and returns a live node. The source returns \<open>m.nodes[name]\<close> as soon as the
  resolver answers, whatever the map holds. In the run below a and b are managed, the key
  is routed to b, b is removed, and the next Distribute of the key returns nil and leaves
  the state as it is, although a is in the node set and the ring would answer a.
\<close>

theorem stale_entry_counterexample:
  "NewManagerWithRepartition exampleDeps ''g'' exampleFactory [''a'', ''b''] (statefulResolver Map.empty)
     = Inr (managerAB exampleFactory (statefulResolver Map.empty)) \<and>
   Distribute exampleDeps [1] (managerAB exampleFactory (statefulResolver Map.empty))
     = (Some nodeB, pinnedToB) \<and>
   Remove exampleDeps ''b'' pinnedToB = Inr afterRemoveB \<and>
   nodes afterRemoveB ''a'' = Some (Some nodeA) \<and>
   LocateKey exampleDeps (hashRing afterRemoveB) [1] = Some nodeA \<and>
   Distribute exampleDeps [1] afterRemoveB = (None, afterRemoveB)"
  by (simp add: op_defs example_defs)

text \<open>
  Claim C1, as amended: if the resolver holds for the key's hash the name derived from a
  URL, then after Remove of that URL has completed Distribute of the key returns nil, never
  the removed node, and changes nothing: the ring is not consulted and the resolver keeps
  the entry.
\<close>

theorem stale_entry_returns_none:
  assumes "resolverGet (resolver m) (Sum64 d key) = Some (Url2NodeName d url)"
    and "Remove d url m = Inr m'"
  shows "Distribute d key m' = (None, m')"
proof -
  have "nodes m' (Url2NodeName d url) = None" and "resolver m' = resolver m"
    using assms(2) by (auto simp: Remove_def Let_def split: option.splits)
  then show ?thesis using assms(1) by (simp add: Distribute_cases index_def)
qed

theorem stale_entry_returns_none_witness:
  "resolverGet (resolver pinnedToB) (Sum64 exampleDeps [1]) = Some (Url2NodeName exampleDeps ''b'') \<and>
   Remove exampleDeps ''b'' pinnedToB = Inr afterRemoveB \<and>
   Distribute exampleDeps [1] afterRemoveB = (None, afterRemoveB)"
proof -
  have h1: "resolverGet (resolver pinnedToB) (Sum64 exampleDeps [1]) = Some (Url2NodeName exampleDeps ''b'')"
    by (simp add: example_defs)
  have h2: "Remove exampleDeps ''b'' pinnedToB = Inr afterRemoveB" by (rule Remove_B)
  from stale_entry_returns_none[OF h1 h2] h1 h2 show ?thesis by simp
qed

subsection \<open>C2: a factory that returns an error\<close>

text \<open>
  Claim C2 says that a node whose factory call returned an error is neither stored in the
  node set nor added to the ring. The source drops the error in the constructor and in
  Add and stores what the factory returned. With a factory that returns the node and an
  error, b is in the node set and in the ring after Add and after the constructor, and a
  key is routed to it.
\<close>

theorem factory_error_counterexample:
  "snd (failingFactory ''g'' ''b'' ''b'') = Some ''dial failed'' \<and>
   Add exampleDeps ''b'' (managerA failingFactory noopRepartitionResolver)
     = Inr (managerAB failingFactory noopRepartitionResolver) \<and>
   NewManagerWithRepartition exampleDeps ''g'' failingFactory [''a'', ''b''] noopRepartitionResolver
     = Inr (managerAB failingFactory noopRepartitionResolver) \<and>
   nodes (managerAB failingFactory noopRepartitionResolver) ''b'' = Some (Some nodeB) \<and>
   hashRing (managerAB failingFactory noopRepartitionResolver) = [nodeA, nodeB] \<and>
   Route exampleDeps [1] (managerAB failingFactory noopRepartitionResolver)
     = (''b'', managerAB failingFactory noopRepartitionResolver)"
proof -
  have "snd (failingFactory ''g'' ''b'' ''b'') = Some ''dial failed''"
    by (simp add: failingFactory_def)
  moreover have "nodes (managerAB failingFactory noopRepartitionResolver) ''b'' = Some (Some nodeB)"
    by (simp add: managerAB_def)
  moreover have "hashRing (managerAB failingFactory noopRepartitionResolver) = [nodeA, nodeB]"
    by (simp add: managerAB_def)
  moreover have "Route exampleDeps [1] (managerAB failingFactory noopRepartitionResolver)
     = (''b'', managerAB failingFactory noopRepartitionResolver)"
    by (simp add: Route_def Distribute_noop_AB nodeB_def)
  ultimately show ?thesis by (simp add: Add_B_failing New_AB_failing)
qed

text \<open>
  Claim C2, as amended: the error of the factory plays no part. For a URL whose name is not
  in the node set, Add stores the node the factory returned under that name and adds it
  to the ring (where its key is then present), whatever error came with it. After the
  constructor the names of the node set are the names of all the URLs, and each entry
  holds what the factory returned for a URL of that name, a node whose key is in the ring.
\<close>

theorem factory_error_dropped:
  "(nodes m (Url2NodeName d url) = None \<and>
    nodeFactory m (group m) (Url2NodeName d url) url = (Some n, err) \<longrightarrow>
      Add d url m =
        Inr (m\<lparr>nodes := (nodes m)(Url2NodeName d url \<mapsto> Some n),
               hashRing := ringAdd n (hashRing m)\<rparr>) \<and>
      String n \<in> String ` set (ringAdd n (hashRing m))) \<and>
   (NewManagerWithRepartition d g nf urls r = Inr m0 \<longrightarrow>
      dom (nodes m0) = Url2NodeName d ` set urls \<and>
      (\<forall>name v. nodes m0 name = Some v \<longrightarrow>
         (\<exists>url \<in> set urls. name = Url2NodeName d url \<and> v = fst (nf g name url)) \<and>
         (\<exists>x. v = Some x \<and> String x \<in> String ` set (hashRing m0))))"
proof (intro conjI impI)
  assume "nodes m (Url2NodeName d url) = None \<and>
    nodeFactory m (group m) (Url2NodeName d url) url = (Some n, err)"
  then show "Add d url m =
        Inr (m\<lparr>nodes := (nodes m)(Url2NodeName d url \<mapsto> Some n),
               hashRing := ringAdd n (hashRing m)\<rparr>)"
    by (simp add: Add_def Let_def ringAddMember_def)
  show "String n \<in> String ` set (ringAdd n (hashRing m))" by (simp add: ringAdd_keys)
next
  assume new: "NewManagerWithRepartition d g nf urls r = Inr m0"
  show "dom (nodes m0) = Url2NodeName d ` set urls"
    using New_fields[OF new] by (simp add: newNodes_dom)
  have "\<forall>url \<in> set urls. (\<lambda>name v. \<exists>u \<in> set urls. name = Url2NodeName d u \<and> v = fst (nf g name u))
      (Url2NodeName d url) (fst (nf g (Url2NodeName d url) url))" by auto
  from New_stored[OF new this]
  show "\<forall>name v. nodes m0 name = Some v \<longrightarrow>
         (\<exists>url \<in> set urls. name = Url2NodeName d url \<and> v = fst (nf g name url)) \<and>
         (\<exists>x. v = Some x \<and> String x \<in> String ` set (hashRing m0))"
    by blast
qed

theorem factory_error_dropped_witness:
  "nodes (managerA failingFactory noopRepartitionResolver) (Url2NodeName exampleDeps ''b'') = None \<and>
   nodeFactory (managerA failingFactory noopRepartitionResolver)
     (group (managerA failingFactory noopRepartitionResolver)) (Url2NodeName exampleDeps ''b'') ''b''
     = (Some nodeB, Some ''dial failed'') \<and>
   Add exampleDeps ''b'' (managerA failingFactory noopRepartitionResolver)
     = Inr ((managerA failingFactory noopRepartitionResolver)
             \<lparr>nodes := (nodes (managerA failingFactory noopRepartitionResolver))
                         (Url2NodeName exampleDeps ''b'' \<mapsto> Some nodeB),
              hashRing := ringAdd nodeB (hashRing (managerA failingFactory noopRepartitionResolver))\<rparr>) \<and>
   NewManagerWithRepartition exampleDeps ''g'' failingFactory [''a'', ''b''] noopRepartitionResolver
     = Inr (managerAB failingFactory noopRepartitionResolver) \<and>
   dom (nodes (managerAB failingFactory noopRepartitionResolver))
     = Url2NodeName exampleDeps ` set [''a'', ''b'']"
proof -
  let ?m = "managerA failingFactory noopRepartitionResolver"
  have h1: "nodes ?m (Url2NodeName exampleDeps ''b'') = None"
    by (simp add: example_defs)
  have h2: "nodeFactory ?m (group ?m) (Url2NodeName exampleDeps ''b'') ''b''
     = (Some nodeB, Some ''dial failed'')"
    by (simp add: example_defs)
  have h3: "NewManagerWithRepartition exampleDeps ''g'' failingFactory [''a'', ''b''] noopRepartitionResolver
     = Inr (managerAB failingFactory noopRepartitionResolver)" by (rule New_AB_failing)
  have a: "Add exampleDeps ''b'' ?m
     = Inr (?m\<lparr>nodes := (nodes ?m)(Url2NodeName exampleDeps ''b'' \<mapsto> Some nodeB),
              hashRing := ringAdd nodeB (hashRing ?m)\<rparr>)"
    using factory_error_dropped[of ?m exampleDeps "''b''" nodeB "Some ''dial failed''"] h1 h2
    by blast
  have b: "dom (nodes (managerAB failingFactory noopRepartitionResolver))
     = Url2NodeName exampleDeps ` set [''a'', ''b'']"
    using factory_error_dropped[of ?m exampleDeps "''b''" nodeB "Some ''dial failed''"
        "''g''" failingFactory "[''a'', ''b'']" noopRepartitionResolver
        "managerAB failingFactory noopRepartitionResolver"] h3
    by blast
  from h1 h2 h3 a b show ?thesis by blast
qed

subsection \<open>C3: stickiness\<close>

text \<open>
  Claim C3 says that once Distribute of a key has returned X, later calls keep returning X
  after another node is added, as long as X stays in the node set. On a Manager built by
  NewManager the resolver is the no-op one and every call asks the ring: with a alone the
  key goes to a, and after b is added the same key goes to b, a still being in the node
  set.
\<close>

theorem stickiness_counterexample:
  "NewManager exampleDeps ''g'' exampleFactory [''a''] = Inr (managerA exampleFactory noopRepartitionResolver) \<and>
   Distribute exampleDeps [1] (managerA exampleFactory noopRepartitionResolver)
     = (Some nodeA, managerA exampleFactory noopRepartitionResolver) \<and>
   Add exampleDeps ''b'' (managerA exampleFactory noopRepartitionResolver)
     = Inr (managerAB exampleFactory noopRepartitionResolver) \<and>
   nodes (managerAB exampleFactory noopRepartitionResolver) ''a'' = Some (Some nodeA) \<and>
   Distribute exampleDeps [1] (managerAB exampleFactory noopRepartitionResolver)
     = (Some nodeB, managerAB exampleFactory noopRepartitionResolver) \<and>
   nodeB \<noteq> nodeA"
proof -
  have "nodes (managerAB exampleFactory noopRepartitionResolver) ''a'' = Some (Some nodeA)"
    by (simp add: managerAB_def)
  moreover have "nodeB \<noteq> nodeA" by (simp add: nodeA_def nodeB_def)
  ultimately show ?thesis
    by (simp add: NewManager_def New_A Add_B Distribute_noop_A Distribute_noop_AB)
qed

lemma step_keeps_pin:
  assumes "resolverGet (resolver m) h = Some name" and "nodes m name = Some (Some X)"
    and "step d c m = Inr m'"
    and "\<forall>url. c = CallRemove url \<longrightarrow> Url2NodeName d url \<noteq> name"
  shows "resolverGet (resolver m') h = Some name \<and> nodes m' name = Some (Some X)"
proof (cases c)
  case (CallAdd url)
  then show ?thesis using assms(1,2,3)
    by (auto simp: Add_def Let_def ringAddMember_def split: if_splits option.splits)
next
  case (CallRemove url)
  then have "Url2NodeName d url \<noteq> name" using assms(4) by simp
  then show ?thesis using CallRemove assms(1,2,3)
    by (auto simp: Remove_def Let_def split: option.splits)
next
  case (CallDistribute key)
  then have m': "m' = snd (Distribute d key m)" using assms(3) by auto
  from assms(1) obtain tbl where r: "resolver m = statefulResolver tbl" and t: "tbl h = Some name"
    by (cases "resolver m") auto
  have "resolverGet (resolver m') h = Some name"
    using m' r t by (auto simp: Distribute_cases split: option.splits)
  then show ?thesis using m' assms(2) by (simp add: Distribute_keeps)
qed

lemma run_keeps_pin:
  assumes "resolverGet (resolver m) h = Some name" and "nodes m name = Some (Some X)"
    and "run d cs m = Inr m'"
    and "\<forall>url. CallRemove url \<in> set cs \<longrightarrow> Url2NodeName d url \<noteq> name"
  shows "resolverGet (resolver m') h = Some name \<and> nodes m' name = Some (Some X)"
  using assms
proof (induction cs arbitrary: m)
  case Nil
  then show ?case by simp
next
  case (Cons c cs)
  from Cons.prems(3) obtain m1 where s: "step d c m = Inr m1" and r: "run d cs m1 = Inr m'"
    by (auto split: sum.splits)
  have "\<forall>url. c = CallRemove url \<longrightarrow> Url2NodeName d url \<noteq> name"
    using Cons.prems(4) by simp
  from step_keeps_pin[OF Cons.prems(1,2) s this]
  have p: "resolverGet (resolver m1) h = Some name" "nodes m1 name = Some (Some X)" by simp_all
  have "\<forall>url. CallRemove url \<in> set cs \<longrightarrow> Url2NodeName d url \<noteq> name"
    using Cons.prems(4) by simp
  from Cons.IH[OF p r this] show ?case .
qed

lemma Distribute_pins:
  assumes "wellFormed m" and "resolver m = statefulResolver tbl"
    and "Distribute d key m = (Some X, m1)"
  shows "resolverGet (resolver m1) (Sum64 d key) = Some (Name X) \<and>
         nodes m1 (Name X) = Some (Some X)"
proof (cases "tbl (Sum64 d key)")
  case None
  with assms(2,3) have loc: "LocateKey d (hashRing m) key = Some X"
    and m1: "m1 = m\<lparr>resolver := resolverPut (resolver m) (Sum64 d key) (Name X)\<rparr>"
    by (auto simp: Distribute_cases split: option.splits)
  from loc have "X \<in> set (hashRing m)" by (rule LocateKey_member)
  then have st: "nodes m (String X) = Some (Some X)"
    using assms(1) by (simp add: wellFormed_def ringInNodeSet_def)
  then have "Name X = String X"
    using assms(1) by (auto simp: wellFormed_def namedByKey_def)
  with st m1 assms(2) show ?thesis by simp
next
  case (Some name)
  with assms(2,3) have idx: "index (nodes m) name = Some X" and m1: "m1 = m"
    by (auto simp: Distribute_cases)
  from idx have st: "nodes m name = Some (Some X)"
    by (auto simp: index_def split: option.splits)
  then have "Name X = name"
    using assms(1) by (auto simp: wellFormed_def namedByKey_def)
  with st m1 Some assms(2) show ?thesis by simp
qed

text \<open>
  Claim C3, as amended: on a well-formed Manager whose resolver is the stateful one, once
  Distribute of a key has returned the node X, then after any completed sequence of Add,
  Remove and Distribute calls that does not remove the name of X, Distribute of the same
  key returns X again and leaves the state unchanged.
\<close>

theorem Distribute_sticky:
  assumes "wellFormed m" and "resolver m = statefulResolver tbl"
    and "Distribute d key m = (Some X, m1)"
    and "run d cs m1 = Inr m2"
    and "\<forall>url. CallRemove url \<in> set cs \<longrightarrow> Url2NodeName d url \<noteq> Name X"
  shows "Distribute d key m2 = (Some X, m2)"
proof -
  from Distribute_pins[OF assms(1,2,3)]
  have p: "resolverGet (resolver m1) (Sum64 d key) = Some (Name X)"
    "nodes m1 (Name X) = Some (Some X)" by simp_all
  from run_keeps_pin[OF p assms(4,5)]
  show ?thesis by (simp add: Distribute_cases index_def)
qed

theorem Distribute_sticky_witness:
  "wellFormed (managerA exampleFactory (statefulResolver Map.empty)) \<and>
   Distribute exampleDeps [1] (managerA exampleFactory (statefulResolver Map.empty)) = (Some nodeA, pinnedToA) \<and>
   run exampleDeps [CallAdd ''b'', CallDistribute [1, 2]] pinnedToA = Inr pinnedBoth \<and>
   LocateKey exampleDeps (hashRing pinnedBoth) [1] = Some nodeB \<and>
   Distribute exampleDeps [1] pinnedBoth = (Some nodeA, pinnedBoth)"
proof -
  let ?m = "managerA exampleFactory (statefulResolver Map.empty)"
  have h1: "wellFormed ?m" by (rule wellFormed_managerA)
  have h2: "resolver ?m = statefulResolver Map.empty" by (simp add: managerA_def)
  have h3: "Distribute exampleDeps [1] ?m = (Some nodeA, pinnedToA)" by (rule Distribute_A_empty)
  have h4: "run exampleDeps [CallAdd ''b'', CallDistribute [1, 2]] pinnedToA = Inr pinnedBoth"
    by (rule run_pinnedToA)
  have h5: "\<forall>url. CallRemove url \<in> set [CallAdd ''b'', CallDistribute [1, 2]] \<longrightarrow>
              Url2NodeName exampleDeps url \<noteq> Name nodeA" by simp
  have l: "LocateKey exampleDeps (hashRing pinnedBoth) [1] = Some nodeB"
    by (simp add: LocateKey_def example_defs pinnedBoth_def)
  from Distribute_sticky[OF h1 h2 h3 h4 h5] h1 h3 h4 l show ?thesis by blast
qed

subsection \<open>C4: the empty cluster\<close>

lemma ringInNodeSet_empty: "ringInNodeSet m \<Longrightarrow> nodes m = Map.empty \<Longrightarrow> hashRing m = []"
  by (cases "hashRing m") (auto simp: ringInNodeSet_def)

text \<open>
  Claim C4: on a Manager whose node set is empty, Distribute returns nil for every key and
  Route returns the empty string. The ring members are assumed to be nodes of the node
  set, as they are in every reachable state (\<open>reachable_wellFormed\<close>), so that the ring is
  empty too.
\<close>

theorem empty_cluster:
  assumes "ringInNodeSet m" and "nodes m = Map.empty"
  shows "Distribute d key m = (None, m) \<and> Route d key m = ([], m)"
proof -
  have ring: "hashRing m = []" using assms by (rule ringInNodeSet_empty)
  have "Distribute d key m = (None, m)"
    using assms(2) ring by (simp add: Distribute_cases index_def LocateKey_empty split: option.splits)
  then show ?thesis by (simp add: Route_def)
qed

theorem empty_cluster_witness:
  "ringInNodeSet (managerEmpty exampleFactory (statefulResolver [1 \<mapsto> ''b''])) \<and>
   nodes (managerEmpty exampleFactory (statefulResolver [1 \<mapsto> ''b''])) = Map.empty \<and>
   Distribute exampleDeps [1] (managerEmpty exampleFactory (statefulResolver [1 \<mapsto> ''b'']))
     = (None, managerEmpty exampleFactory (statefulResolver [1 \<mapsto> ''b''])) \<and>
   Route exampleDeps [1] (managerEmpty exampleFactory (statefulResolver [1 \<mapsto> ''b'']))
     = ([], managerEmpty exampleFactory (statefulResolver [1 \<mapsto> ''b'']))"
proof -
  let ?m = "managerEmpty exampleFactory (statefulResolver [1 \<mapsto> ''b''])"
  have h1: "ringInNodeSet ?m" by (simp add: ringInNodeSet_def managerEmpty_def)
  have h2: "nodes ?m = Map.empty" by (simp add: managerEmpty_def)
  from empty_cluster[OF h1 h2, of exampleDeps "[1]"] h1 h2 show ?thesis by simp
qed

subsection \<open>C5: Add and Remove are idempotent\<close>

lemma filter_eq_single: "distinct xs \<Longrightarrow> x \<in> set xs \<Longrightarrow> filter (\<lambda>k. k = x) xs = [x]"
  by (induction xs) (auto simp: filter_empty_conv)

lemma List_one:
  assumes "namedByKey m" and "nodes m name = Some v"
    and "distinct names" and "set names = dom (nodes m)"
  shows "length (filter (hasName name) (List m names)) = 1"
proof -
  have "\<forall>k \<in> set names. hasName name (index (nodes m) k) \<longleftrightarrow> k = name"
  proof
    fix k assume "k \<in> set names"
    then obtain w where "nodes m k = Some w" using assms(4) by auto
    then obtain n where "nodes m k = Some (Some n)" "Name n = k"
      using assms(1) by (auto simp: namedByKey_def)
    then show "hasName name (index (nodes m) k) \<longleftrightarrow> k = name"
      by (auto simp: hasName_def index_def)
  qed
  then have "filter (hasName name \<circ> index (nodes m)) names = filter (\<lambda>k. k = name) names"
    by (auto intro: filter_cong)
  moreover have "name \<in> set names" using assms(2,4) by auto
  ultimately have "filter (hasName name \<circ> index (nodes m)) names = [name]"
    using assms(3) by (simp add: filter_eq_single)
  then show ?thesis by (simp add: List_def filter_map)
qed

text \<open>
  Claim C5: after Add of a URL has completed, a second Add of the same URL returns the
  state as it is, and List(), in whatever order it ranges over the map, holds exactly one
  node with the name derived from the URL; after Remove of a URL has completed, a second
  Remove of it returns the state as it is. The count is over a node set whose entries
  carry their keys as names, filled by a factory that names its nodes as told.
\<close>

theorem Add_Remove_idempotent:
  "(namedByKey m \<and> factoryNames (nodeFactory m) \<and> Add d url m = Inr m1 \<longrightarrow>
      Add d url m1 = Inr m1 \<and>
      (\<forall>names. distinct names \<and> set names = dom (nodes m1) \<longrightarrow>
         length (filter (hasName (Url2NodeName d url)) (List m1 names)) = 1)) \<and>
   (Remove d url m' = Inr m2 \<longrightarrow> Remove d url m2 = Inr m2)"
proof (intro conjI impI allI)
  assume a: "namedByKey m \<and> factoryNames (nodeFactory m) \<and> Add d url m = Inr m1"
  then obtain v where v: "nodes m1 (Url2NodeName d url) = Some v" using Add_stores by blast
  then show "Add d url m1 = Inr m1" by (rule Add_present)
  fix names assume n: "distinct names \<and> set names = dom (nodes m1)"
  from a have "namedByKey m1" using namedByKey_Add by blast
  then show "length (filter (hasName (Url2NodeName d url)) (List m1 names)) = 1"
    using v n by (simp add: List_one)
next
  assume r: "Remove d url m' = Inr m2"
  have "nodes m2 (Url2NodeName d url) = None"
  proof (cases "nodes m' (Url2NodeName d url)")
    case None
    then show ?thesis using r by (simp add: Remove_absent)
  next
    case (Some v)
    from Remove_present[OF Some r] show ?thesis by auto
  qed
  then show "Remove d url m2 = Inr m2" by (rule Remove_absent)
qed

theorem Add_Remove_idempotent_witness:
  "namedByKey (managerA exampleFactory noopRepartitionResolver) \<and>
   factoryNames (nodeFactory (managerA exampleFactory noopRepartitionResolver)) \<and>
   Add exampleDeps ''b'' (managerA exampleFactory noopRepartitionResolver)
     = Inr (managerAB exampleFactory noopRepartitionResolver) \<and>
   Add exampleDeps ''b'' (managerAB exampleFactory noopRepartitionResolver)
     = Inr (managerAB exampleFactory noopRepartitionResolver) \<and>
   length (filter (hasName (Url2NodeName exampleDeps ''b''))
            (List (managerAB exampleFactory noopRepartitionResolver) [''a'', ''b''])) = 1 \<and>
   Remove exampleDeps ''b'' pinnedToB = Inr afterRemoveB \<and>
   Remove exampleDeps ''b'' afterRemoveB = Inr afterRemoveB"
proof -
  let ?a = "managerA exampleFactory noopRepartitionResolver"
  let ?ab = "managerAB exampleFactory noopRepartitionResolver"
  have h1: "namedByKey ?a" using wellFormed_managerA by (simp add: wellFormed_def)
  have h2: "factoryNames (nodeFactory ?a)" by (simp add: managerA_def factoryNames_example)
  have h3: "Add exampleDeps ''b'' ?a = Inr ?ab" by (rule Add_B)
  have h4: "distinct [''a'', ''b''] \<and> set [''a'', ''b''] = dom (nodes ?ab)"
    by (auto simp: managerAB_def)
  have h5: "Remove exampleDeps ''b'' pinnedToB = Inr afterRemoveB" by (rule Remove_B)
  note t = Add_Remove_idempotent[of ?a exampleDeps "''b''" ?ab pinnedToB afterRemoveB]
  from t h1 h2 h3 have a: "Add exampleDeps ''b'' ?ab = Inr ?ab" by blast
  from t h1 h2 h3 h4 have b: "length (filter (hasName (Url2NodeName exampleDeps ''b''))
            (List ?ab [''a'', ''b''])) = 1" by blast
  from t h5 have c: "Remove exampleDeps ''b'' afterRemoveB = Inr afterRemoveB" by blast
  from h1 h2 h3 a b h5 c show ?thesis by blast
qed

subsection \<open>C6: what Remove does\<close>

text \<open>
  Claim C6: when the name derived from the URL is in the node set with its node, Remove
  closes that node, deletes the name from the node set and from the epoch map and removes
  the member with that key from the ring, and changes nothing else; when the name is
  absent, Remove returns the state as it is.
\<close>

theorem Remove_present_absent:
  "(nodes m (Url2NodeName d url) = Some (Some n) \<longrightarrow>
      Remove d url m =
        Inr (m\<lparr>closed := closed m @ [n],
               nodes := (nodes m)(Url2NodeName d url := None),
               nodeName2Epochs := (nodeName2Epochs m)(Url2NodeName d url := None),
               hashRing := ringRemove (Url2NodeName d url) (hashRing m)\<rparr>) \<and>
      Url2NodeName d url \<notin> dom (nodes (projr (Remove d url m))) \<and>
      Url2NodeName d url \<notin> dom (nodeName2Epochs (projr (Remove d url m))) \<and>
      Url2NodeName d url \<notin> String ` set (hashRing (projr (Remove d url m))) \<and>
      closed (projr (Remove d url m)) = closed m @ [n]) \<and>
   (nodes m (Url2NodeName d url) = None \<longrightarrow> Remove d url m = Inr m)"
  by (auto simp: Remove_def Let_def ringRemove_def)

theorem Remove_present_absent_witness:
  "nodes pinnedToB (Url2NodeName exampleDeps ''b'') = Some (Some nodeB) \<and>
   Remove exampleDeps ''b'' pinnedToB = Inr afterRemoveB \<and>
   closed afterRemoveB = closed pinnedToB @ [nodeB] \<and>
   Url2NodeName exampleDeps ''b'' \<notin> dom (nodes afterRemoveB) \<and>
   Url2NodeName exampleDeps ''b'' \<notin> String ` set (hashRing afterRemoveB) \<and>
   nodes afterRemoveB (Url2NodeName exampleDeps ''b'') = None \<and>
   Remove exampleDeps ''b'' afterRemoveB = Inr afterRemoveB"
proof -
  have h1: "nodes pinnedToB (Url2NodeName exampleDeps ''b'') = Some (Some nodeB)"
    by (simp add: example_defs)
  have h2: "nodes afterRemoveB (Url2NodeName exampleDeps ''b'') = None"
    by (simp add: example_defs)
  have e: "Remove exampleDeps ''b'' pinnedToB = Inr afterRemoveB" by (rule Remove_B)
  have "closed (projr (Remove exampleDeps ''b'' pinnedToB)) = closed pinnedToB @ [nodeB] \<and>
        Url2NodeName exampleDeps ''b'' \<notin> dom (nodes (projr (Remove exampleDeps ''b'' pinnedToB))) \<and>
        Url2NodeName exampleDeps ''b'' \<notin> String ` set (hashRing (projr (Remove exampleDeps ''b'' pinnedToB)))"
    using Remove_present_absent[of pinnedToB exampleDeps "''b''" nodeB] h1 by blast
  then have a: "closed afterRemoveB = closed pinnedToB @ [nodeB] \<and>
        Url2NodeName exampleDeps ''b'' \<notin> dom (nodes afterRemoveB) \<and>
        Url2NodeName exampleDeps ''b'' \<notin> String ` set (hashRing afterRemoveB)"
    unfolding e by simp
  have b: "Remove exampleDeps ''b'' afterRemoveB = Inr afterRemoveB"
    using Remove_present_absent[of afterRemoveB exampleDeps "''b''" nodeB] h2 by blast
  from h1 h2 e a b show ?thesis by blast
qed

subsection \<open>C7: every name of the node set has a member in the ring\<close>

text \<open>
  Claim C7: after the constructor and after every completed Add or Remove (and Distribute)
  that follows it, every name of the node set is the key of a member of the ring. The
  factory is one that names its nodes as told; the operations are those of the Manager
  shown here.
\<close>

theorem nodeSet_ring_invariant:
  assumes "factoryNames nf"
    and "NewManagerWithRepartition d g nf urls r = Inr m0"
    and "run d cs m0 = Inr m"
  shows "nodeSetInRing m"
proof -
  have "nodeFactory m0 = nf" using New_fields[OF assms(2)] by simp
  with assms(1) have "factoryNames (nodeFactory m0)" by simp
  moreover have "nodeSetInRing m0" using assms(1,2) by (rule nodeSetInRing_New)
  ultimately show ?thesis using assms(3) by (rule run_nodeSetInRing)
qed

theorem nodeSet_ring_invariant_witness:
  "factoryNames exampleFactory \<and>
   NewManagerWithRepartition exampleDeps ''g'' exampleFactory [''a'', ''b''] (statefulResolver Map.empty)
     = Inr (managerAB exampleFactory (statefulResolver Map.empty)) \<and>
   run exampleDeps [CallDistribute [1], CallRemove ''b'']
     (managerAB exampleFactory (statefulResolver Map.empty)) = Inr afterRemoveB \<and>
   nodeSetInRing afterRemoveB"
proof -
  have h1: "factoryNames exampleFactory" by (rule factoryNames_example)
  have h2: "NewManagerWithRepartition exampleDeps ''g'' exampleFactory [''a'', ''b''] (statefulResolver Map.empty)
     = Inr (managerAB exampleFactory (statefulResolver Map.empty))" by (rule New_AB)
  have h3: "run exampleDeps [CallDistribute [1], CallRemove ''b'']
     (managerAB exampleFactory (statefulResolver Map.empty)) = Inr afterRemoveB"
    by (rule run_to_afterRemoveB)
  from nodeSet_ring_invariant[OF h1 h2 h3] h1 h2 h3 show ?thesis by blast
qed

subsection \<open>C8: determinism\<close>

lemma Distribute_again:
  assumes "wellFormed m" and "Distribute d key m = (v, m')"
  shows "Distribute d key m' = (v, m')"
proof (cases "resolverGet (resolver m) (Sum64 d key)")
  case (Some name)
  then show ?thesis using assms(2) by (auto simp: Distribute_cases)
next
  case None
  show ?thesis
  proof (cases "LocateKey d (hashRing m) key")
    case N: None
    then show ?thesis using None assms(2) by (auto simp: Distribute_cases)
  next
    case (Some n)
    then have "n \<in> set (hashRing m)" by (rule LocateKey_member)
    then have st: "nodes m (String n) = Some (Some n)"
      using assms(1) by (simp add: wellFormed_def ringInNodeSet_def)
    then have "Name n = String n"
      using assms(1) by (auto simp: wellFormed_def namedByKey_def)
    with st have idx: "index (nodes m) (Name n) = Some n" by (simp add: index_def)
    from None Some assms(2) have v: "v = Some n"
      and m': "m' = m\<lparr>resolver := resolverPut (resolver m) (Sum64 d key) (Name n)\<rparr>"
      by (auto simp: Distribute_cases)
    show ?thesis
    proof (cases "resolver m")
      case noopRepartitionResolver
      then show ?thesis using Some v m' by (simp add: Distribute_cases)
    next
      case (statefulResolver tbl)
      then show ?thesis using idx v m' by (simp add: Distribute_cases)
    qed
  qed
qed

text \<open>
  Claim C8: with the membership fixed, two Distribute calls for the same key, one after
  the other, return the same node; the second call also leaves the state as the first
  left it. Distribute itself is a function of the state and the key: nothing in it is
  random. The state is a well-formed one.
\<close>

theorem Distribute_repeat:
  assumes "wellFormed m"
  shows "Distribute d key (snd (Distribute d key m)) = Distribute d key m"
proof -
  have "Distribute d key m = (fst (Distribute d key m), snd (Distribute d key m))" by simp
  from Distribute_again[OF assms this] show ?thesis by simp
qed

theorem Distribute_repeat_witness:
  "wellFormed (managerAB exampleFactory (statefulResolver Map.empty)) \<and>
   Distribute exampleDeps [1] (managerAB exampleFactory (statefulResolver Map.empty)) = (Some nodeB, pinnedToB) \<and>
   Distribute exampleDeps [1] pinnedToB = (Some nodeB, pinnedToB)"
proof -
  let ?m = "managerAB exampleFactory (statefulResolver Map.empty)"
  have h: "wellFormed ?m" by (rule wellFormed_managerAB)
  have e: "Distribute exampleDeps [1] ?m = (Some nodeB, pinnedToB)" by (rule Distribute_AB_empty)
  have "Distribute exampleDeps [1] (snd (Distribute exampleDeps [1] ?m)) = Distribute exampleDeps [1] ?m"
    using h by (rule Distribute_repeat)
  then have "Distribute exampleDeps [1] pinnedToB = (Some nodeB, pinnedToB)"
    unfolding e by simp
  with h e show ?thesis by blast
qed

subsection \<open>C9: what Distribute leaves alone\<close>

text \<open>
  Claim C9: Distribute leaves the node set, the ring, the epoch map and the middle epoch as
  they are; the state after it differs from the state before it in the resolver at most,
  and the resolver changes only by the Put that follows a miss and a ring lookup.
\<close>

theorem Distribute_frame:
  "nodes (snd (Distribute d key m)) = nodes m \<and>
   hashRing (snd (Distribute d key m)) = hashRing m \<and>
   nodeName2Epochs (snd (Distribute d key m)) = nodeName2Epochs m \<and>
   midEpoch (snd (Distribute d key m)) = midEpoch m \<and>
   snd (Distribute d key m) = m\<lparr>resolver := resolver (snd (Distribute d key m))\<rparr> \<and>
   (resolver (snd (Distribute d key m)) = resolver m \<or>
    (\<exists>n. resolverGet (resolver m) (Sum64 d key) = None \<and>
         LocateKey d (hashRing m) key = Some n \<and>
         resolver (snd (Distribute d key m)) = resolverPut (resolver m) (Sum64 d key) (Name n)))"
  by (simp add: Distribute_cases split: option.splits)

theorem Distribute_frame_witness:
  "nodes (snd (Distribute exampleDeps [1] (managerAB exampleFactory (statefulResolver Map.empty))))
     = nodes (managerAB exampleFactory (statefulResolver Map.empty)) \<and>
   hashRing (snd (Distribute exampleDeps [1] (managerAB exampleFactory (statefulResolver Map.empty))))
     = [nodeA, nodeB] \<and>
   resolver (snd (Distribute exampleDeps [1] (managerAB exampleFactory (statefulResolver Map.empty))))
     = statefulResolver [1 \<mapsto> ''b'']"
  using Distribute_frame[of exampleDeps "[1]" "managerAB exampleFactory (statefulResolver Map.empty)"]
  unfolding Distribute_AB_empty
  by (simp add: pinnedToB_def managerAB_def)

subsection \<open>C10: NewManager and the no-op resolver\<close>

lemma step_resolver_noop:
  "resolver m = noopRepartitionResolver \<Longrightarrow> step d c m = Inr m' \<Longrightarrow> resolver m' = noopRepartitionResolver"
  by (cases c)
    (auto simp: Add_def Remove_def Let_def Distribute_cases split: if_splits option.splits sum.splits)

lemma run_resolver_noop:
  "resolver m = noopRepartitionResolver \<Longrightarrow> run d cs m = Inr m' \<Longrightarrow> resolver m' = noopRepartitionResolver"
proof (induction cs arbitrary: m)
  case Nil
  then show ?case by simp
next
  case (Cons c cs)
  from Cons.prems(2) obtain m1 where s: "step d c m = Inr m1" and r: "run d cs m1 = Inr m'"
    by (auto split: sum.splits)
  from Cons.prems(1) s have "resolver m1 = noopRepartitionResolver" by (rule step_resolver_noop)
  then show ?case using r by (rule Cons.IH)
qed

text \<open>
  Claim C10: a Manager built by NewManager has the no-op resolver and keeps it, so that in
  every state reached from it the resolver lookup misses and Distribute returns what the
  ring returns for the key, leaving the state as it is.
\<close>

theorem NewManager_routes_by_ring:
  assumes "NewManager d g nf urls = Inr m0" and "run d cs m0 = Inr m"
  shows "resolver m0 = noopRepartitionResolver \<and>
         resolverGet (resolver m) (Sum64 d key) = None \<and>
         Distribute d key m = (LocateKey d (hashRing m) key, m)"
proof -
  have r0: "resolver m0 = noopRepartitionResolver"
    using assms(1) New_fields[of d g nf urls noopRepartitionResolver m0] by (simp add: NewManager_def)
  from r0 assms(2) have r: "resolver m = noopRepartitionResolver" by (rule run_resolver_noop)
  then have "Distribute d key m = (LocateKey d (hashRing m) key, m)"
    by (cases "LocateKey d (hashRing m) key") (simp_all add: Distribute_cases)
  with r0 r show ?thesis by simp
qed

theorem NewManager_routes_by_ring_witness:
  "NewManager exampleDeps ''g'' exampleFactory [''a''] = Inr (managerA exampleFactory noopRepartitionResolver) \<and>
   run exampleDeps [CallDistribute [1], CallAdd ''b''] (managerA exampleFactory noopRepartitionResolver)
     = Inr (managerAB exampleFactory noopRepartitionResolver) \<and>
   Distribute exampleDeps [1] (managerAB exampleFactory noopRepartitionResolver)
     = (LocateKey exampleDeps (hashRing (managerAB exampleFactory noopRepartitionResolver)) [1],
        managerAB exampleFactory noopRepartitionResolver)"
proof -
  have h1: "NewManager exampleDeps ''g'' exampleFactory [''a''] = Inr (managerA exampleFactory noopRepartitionResolver)"
    by (simp add: NewManager_def New_A)
  have h2: "run exampleDeps [CallDistribute [1], CallAdd ''b''] (managerA exampleFactory noopRepartitionResolver)
     = Inr (managerAB exampleFactory noopRepartitionResolver)"
    by (simp add: Distribute_noop_A Add_B)
  from NewManager_routes_by_ring[OF h1 h2, of "[1]"] h1 h2 show ?thesis by blast
qed

end
